theory Spec2Isabelle
  imports Main "HOL-Library.Multiset" "HOL-Library.List_Lexorder" "HOL-Library.Product_Lexorder"
begin

section \<open>Text and the string primitives of the runtime\<close>

text \<open>
  The program is \<^verbatim>\<open>tools/bibtex_to_json.py\<close>. Python's \<^verbatim>\<open>str\<close> is a sequence of Unicode
  code points; here a text is a list of natural numbers, one for each code point, and a
  character class is a predicate on code points. The classes of \<^verbatim>\<open>str.isspace\<close>,
  \<^verbatim>\<open>str.splitlines\<close> and of \<^verbatim>\<open>\s\<close> and \<^verbatim>\<open>\d\<close> in \<^verbatim>\<open>re\<close> (on \<^verbatim>\<open>str\<close> patterns) range over
  the whole code space; they are written out as the Unicode 14.0 database of CPython 3.11
  has them. Indices are natural numbers: the program starts every cursor at 0 or at a
  position it has found and only ever adds to it.
\<close>

type_synonym str = "nat list"

datatype error = IndexError

text \<open>A text of the program or of an example, written by its (ASCII) characters.\<close>

definition lit :: "string \<Rightarrow> str" where
  "lit s = map of_char s"

abbreviation TAB :: nat where "TAB \<equiv> 0x09"
abbreviation LF :: nat where "LF \<equiv> 0x0A"
abbreviation CR :: nat where "CR \<equiv> 0x0D"
abbreviation SPACE :: nat where "SPACE \<equiv> 0x20"
abbreviation DQUOTE :: nat where "DQUOTE \<equiv> 0x22"
abbreviation PERCENT :: nat where "PERCENT \<equiv> 0x25"
abbreviation COMMA :: nat where "COMMA \<equiv> 0x2C"
abbreviation HYPHEN :: nat where "HYPHEN \<equiv> 0x2D"
abbreviation EQUALS :: nat where "EQUALS \<equiv> 0x3D"
abbreviation AT :: nat where "AT \<equiv> 0x40"
abbreviation BACKSLASH :: nat where "BACKSLASH \<equiv> 0x5C"
abbreviation UNDERSCORE :: nat where "UNDERSCORE \<equiv> 0x5F"
abbreviation LBRACE :: nat where "LBRACE \<equiv> 0x7B"
abbreviation RBRACE :: nat where "RBRACE \<equiv> 0x7D"

text \<open>
  \<^verbatim>\<open>str.isspace\<close> of one character, which is also the class \<^verbatim>\<open>\s\<close>: the characters of
  bidirectional type WS, B or S and of category Zs.
\<close>

definition isspace :: "nat \<Rightarrow> bool" where
  "isspace k =
     ((0x09 \<le> k \<and> k \<le> 0x0D) \<or> (0x1C \<le> k \<and> k \<le> 0x20) \<or> k = 0x85 \<or> k = 0xA0 \<or>
      k = 0x1680 \<or> (0x2000 \<le> k \<and> k \<le> 0x200A) \<or> k = 0x2028 \<or> k = 0x2029 \<or>
      k = 0x202F \<or> k = 0x205F \<or> k = 0x3000)"

text \<open>The classes \<^verbatim>\<open>[A-Za-z]\<close> and \<^verbatim>\<open>[A-Za-z0-9_\-]\<close> of the two patterns.\<close>

definition is_alpha :: "nat \<Rightarrow> bool" where
  "is_alpha k = ((0x41 \<le> k \<and> k \<le> 0x5A) \<or> (0x61 \<le> k \<and> k \<le> 0x7A))"

definition is_name_char :: "nat \<Rightarrow> bool" where
  "is_name_char k = (is_alpha k \<or> (0x30 \<le> k \<and> k \<le> 0x39) \<or> k = UNDERSCORE \<or> k = HYPHEN)"

text \<open>
  The class \<^verbatim>\<open>\d\<close>: the decimal digits of every script (category Nd). They come in runs of
  ten, from the digit zero to the digit nine, listed here by their zeros; the value of a
  digit is its distance from the zero of its run.
\<close>

definition decimal_zeros :: "nat list" where
  "decimal_zeros =
     [0x30, 0x660, 0x6F0, 0x7C0, 0x966, 0x9E6, 0xA66, 0xAE6, 0xB66, 0xBE6, 0xC66, 0xCE6,
      0xD66, 0xDE6, 0xE50, 0xED0, 0xF20, 0x1040, 0x1090, 0x17E0, 0x1810, 0x1946, 0x19D0,
      0x1A80, 0x1A90, 0x1B50, 0x1BB0, 0x1C40, 0x1C50, 0xA620, 0xA8D0, 0xA900, 0xA9D0,
      0xA9F0, 0xAA50, 0xABF0, 0xFF10, 0x104A0, 0x10D30, 0x11066, 0x110F0, 0x11136,
      0x111D0, 0x112F0, 0x11450, 0x114D0, 0x11650, 0x116C0, 0x11730, 0x118E0, 0x11950,
      0x11C50, 0x11D50, 0x11DA0, 0x16A60, 0x16AC0, 0x16B50, 0x1D7CE, 0x1D7D8, 0x1D7E2,
      0x1D7EC, 0x1D7F6, 0x1E140, 0x1E2F0, 0x1E950, 0x1FBF0]"

definition is_decimal :: "nat \<Rightarrow> bool" where
  "is_decimal k = list_ex (\<lambda>z. z \<le> k \<and> k < z + 10) decimal_zeros"

definition decimal_value :: "nat \<Rightarrow> nat" where
  "decimal_value k =
     (case filter (\<lambda>z. z \<le> k \<and> k < z + 10) decimal_zeros of [] \<Rightarrow> 0 | z # _ \<Rightarrow> k - z)"

text \<open>
  \<^verbatim>\<open>m.group(1).lower()\<close>: the group of either pattern holds ASCII letters, digits, the
  underscore and the hyphen only, and on such a text \<^verbatim>\<open>str.lower\<close> turns A to Z into a to z
  and leaves the rest. Where the program lowers an arbitrary text (\<^verbatim>\<open>title.lower()\<close>,
  \<^verbatim>\<open>outp.lower()\<close>), \<^verbatim>\<open>str.lower\<close> is the lowercase mapping of the Unicode database with
  its context rules; it is not written out, the functions that call it take it as their
  argument \<open>low\<close>, and what is proved of them is proved for every function in its place.
\<close>

definition lower_ascii_char :: "nat \<Rightarrow> nat" where
  "lower_ascii_char k = (if 0x41 \<le> k \<and> k \<le> 0x5A then k + 32 else k)"

definition lower_ascii :: "str \<Rightarrow> str" where
  "lower_ascii s = map lower_ascii_char s"

text \<open>\<^verbatim>\<open>s[i]\<close> raises IndexError out of range; \<^verbatim>\<open>s[i:j]\<close> never raises.\<close>

definition char_at :: "str \<Rightarrow> nat \<Rightarrow> error + nat" where
  "char_at s i = (if i < length s then Inr (s ! i) else Inl IndexError)"

definition slice :: "str \<Rightarrow> nat \<Rightarrow> nat \<Rightarrow> str" where
  "slice s i j = take (j - i) (drop i s)"

definition lstrip :: "str \<Rightarrow> str" where
  "lstrip s = dropWhile isspace s"

definition rstrip :: "str \<Rightarrow> str" where
  "rstrip s = rev (dropWhile isspace (rev s))"

definition strip :: "str \<Rightarrow> str" where
  "strip s = lstrip (rstrip s)"

text \<open>\<^verbatim>\<open>s.rstrip(",")\<close> removes every trailing comma.\<close>

definition rstrip_comma :: "str \<Rightarrow> str" where
  "rstrip_comma s = rev (dropWhile (\<lambda>c. c = COMMA) (rev s))"

definition startswith :: "str \<Rightarrow> str \<Rightarrow> bool" where
  "startswith s p = (take (length p) s = p)"

definition endswith :: "str \<Rightarrow> str \<Rightarrow> bool" where
  "endswith s p = (length p \<le> length s \<and> drop (length s - length p) s = p)"

text \<open>\<^verbatim>\<open>s.find(c, i)\<close>: the first index at or after \<open>i\<close> that holds \<open>c\<close>; Python's -1 is \<open>None\<close>.\<close>

definition find_from :: "nat \<Rightarrow> str \<Rightarrow> nat \<Rightarrow> nat option" where
  "find_from c s i =
     (if c \<in> set (drop i s) then Some (i + length (takeWhile (\<lambda>x. x \<noteq> c) (drop i s))) else None)"

text \<open>
  The line boundaries of \<^verbatim>\<open>str.splitlines\<close>: LF, CR, VT, FF, FS, GS, RS, NEL and the line
  and paragraph separators.
\<close>

definition is_linebreak :: "nat \<Rightarrow> bool" where
  "is_linebreak k = (k \<in> set [LF, CR, 0x0B, 0x0C, 0x1C, 0x1D, 0x1E, 0x85, 0x2028, 0x2029])"

text \<open>
  \<^verbatim>\<open>s.splitlines()\<close>: the lines without their line breaks; CR LF is one break, and a break
  at the very end opens no further line.
\<close>

fun splitlines_from :: "str \<Rightarrow> str \<Rightarrow> str list" where
  "splitlines_from cur [] = (if cur = [] then [] else [cur])"
| "splitlines_from cur [c] = (if is_linebreak c then [cur] else [cur @ [c]])"
| "splitlines_from cur (c # d # cs) =
     (if c = CR \<and> d = LF then cur # splitlines_from [] cs
      else if is_linebreak c then cur # splitlines_from [] (d # cs)
      else splitlines_from (cur @ [c]) (d # cs))"

definition splitlines :: "str \<Rightarrow> str list" where
  "splitlines s = splitlines_from [] s"

text \<open>\<^verbatim>\<open>"\n".join(lines)\<close>\<close>

fun join_lines :: "str list \<Rightarrow> str" where
  "join_lines [] = []"
| "join_lines [l] = l"
| "join_lines (l # m # ls) = l @ [LF] @ join_lines (m # ls)"

text \<open>\<^verbatim>\<open>s.split(" and ")\<close>: cut at every occurrence of the separator, left to right.\<close>

function split_and_from :: "str \<Rightarrow> str \<Rightarrow> str list" where
  "split_and_from cur [] = [cur]"
| "split_and_from cur (c # cs) =
     (if startswith (c # cs) (lit '' and '') then cur # split_and_from [] (drop 5 (c # cs))
      else split_and_from (cur @ [c]) cs)"
  by pat_completeness auto
termination
  by (relation "measure (\<lambda>(cur, s). length s)") auto

definition split_and :: "str \<Rightarrow> str list" where
  "split_and s = split_and_from [] s"

section \<open>The regular expressions\<close>

text \<open>
  Each pattern of the program is a sequence of greedy character-class repetitions followed
  by one fixed character that lies outside the class before it, so backtracking can never
  succeed where the greedy attempt failed and the match is the one computed here.
  \<^verbatim>\<open>re.match\<close> anchors at the start of its argument; the result is group 1 and
  \<^verbatim>\<open>m.end(0)\<close>.
\<close>

text \<open>\<^verbatim>\<open>re.match(r"([A-Za-z]+)\s*\{", s)\<close>\<close>

definition match_entry_type :: "str \<Rightarrow> (str \<times> nat) option" where
  "match_entry_type s =
     (let g = takeWhile is_alpha s; ws = takeWhile isspace (dropWhile is_alpha s)
      in case dropWhile isspace (dropWhile is_alpha s) of
           [] \<Rightarrow> None
         | c # _ \<Rightarrow> if g \<noteq> [] \<and> c = LBRACE then Some (g, length g + length ws + 1) else None)"

text \<open>\<^verbatim>\<open>re.match(r"([A-Za-z][A-Za-z0-9_\-]*)\s*=", s)\<close>\<close>

definition match_field_name :: "str \<Rightarrow> (str \<times> nat) option" where
  "match_field_name s =
     (case s of
        [] \<Rightarrow> None
      | a # t \<Rightarrow>
          if is_alpha a then
            (let g = a # takeWhile is_name_char t; ws = takeWhile isspace (dropWhile is_name_char t)
             in case dropWhile isspace (dropWhile is_name_char t) of
                  [] \<Rightarrow> None
                | c # _ \<Rightarrow> if c = EQUALS then Some (g, length g + length ws + 1) else None)
          else None)"

text \<open>\<^verbatim>\<open>re.sub(r"\s+", " ", s)\<close>\<close>

function collapse_ws :: "str \<Rightarrow> str" where
  "collapse_ws [] = []"
| "collapse_ws (c # cs) =
     (if isspace c then SPACE # collapse_ws (dropWhile isspace cs) else c # collapse_ws cs)"
  by pat_completeness auto
termination
  by (relation "measure length") (auto simp: length_dropWhile_le le_imp_less_Suc)

text \<open>
  \<^verbatim>\<open>re.sub(r"\{([^{}]+)\}", r"\1", s)\<close>: an opening brace, a non-empty run of characters
  that are not braces, a closing brace; the match is replaced by the run and the search
  goes on behind it.
\<close>

definition not_brace :: "nat \<Rightarrow> bool" where
  "not_brace c = (c \<noteq> LBRACE \<and> c \<noteq> RBRACE)"

function unwrap_braces :: "str \<Rightarrow> str" where
  "unwrap_braces [] = []"
| "unwrap_braces (c # cs) =
     (if c = LBRACE \<and> takeWhile not_brace cs \<noteq> [] \<and> take 1 (dropWhile not_brace cs) = [RBRACE]
      then takeWhile not_brace cs @ unwrap_braces (drop 1 (dropWhile not_brace cs))
      else c # unwrap_braces cs)"
  by pat_completeness auto
termination
  by (relation "measure length")
     (auto simp: less_Suc_eq_le intro: order_trans [OF diff_le_self length_dropWhile_le])

text \<open>\<^verbatim>\<open>re.findall(r"\d{4}", s)\<close>: the non-overlapping matches, leftmost first.\<close>

fun findall_d4 :: "str \<Rightarrow> str list" where
  "findall_d4 (a # b # c # d # rest) =
     (if is_decimal a \<and> is_decimal b \<and> is_decimal c \<and> is_decimal d
      then [a, b, c, d] # findall_d4 rest
      else findall_d4 (b # c # d # rest))"
| "findall_d4 _ = []"

text \<open>
  \<^verbatim>\<open>int(s)\<close> for a text of decimal digits, which every match of \<^verbatim>\<open>\d{4}\<close> is: the number
  the digits write in base ten, whatever their scripts. On such a text \<^verbatim>\<open>int\<close> does not
  raise.
\<close>

definition py_int :: "str \<Rightarrow> int" where
  "py_int s = int (foldl (\<lambda>acc c. 10 * acc + decimal_value c) 0 s)"

section \<open>Cleaning a value\<close>

text \<open>
  \<^verbatim>\<open>_strip_outer_braces\<close>: \<^verbatim>\<open>value[0]\<close>, \<^verbatim>\<open>value[-1]\<close> (the index \<open>length value - 1\<close>) and
  \<^verbatim>\<open>value[1:-1]\<close> are read behind the test \<^verbatim>\<open>len(value) >= 2\<close>; \<^verbatim>\<open>and\<close> and \<^verbatim>\<open>or\<close> evaluate
  their right side only when needed.
\<close>

definition strip_outer_braces :: "str \<Rightarrow> error + str" where
  "strip_outer_braces value0 =
     (let v = rstrip_comma (strip value0) in
      if length v \<ge> 2 then
        (case char_at v 0 of
           Inl e \<Rightarrow> Inl e
         | Inr a \<Rightarrow>
             (case char_at v (length v - 1) of
                Inl e \<Rightarrow> Inl e
              | Inr z \<Rightarrow>
                  if (a = LBRACE \<and> z = RBRACE) \<or> (a = DQUOTE \<and> z = DQUOTE)
                  then Inr (strip (slice v 1 (length v - 1)))
                  else Inr v))
      else Inr v)"

definition clean_tex :: "str \<Rightarrow> str" where
  "clean_tex v = strip (unwrap_braces (collapse_ws v))"

section \<open>Parsing one value\<close>

text \<open>
  \<^verbatim>\<open>_parse_value(text, i)\<close> returns the value and the position behind it. Its loops are
  functions of the cursor; \<open>n\<close> is \<^verbatim>\<open>len(text)\<close>, taken once as in the source.
\<close>

text \<open>\<^verbatim>\<open>while i < n and text[i].isspace(): i += 1\<close>\<close>

function pv_skip_space :: "str \<Rightarrow> nat \<Rightarrow> nat \<Rightarrow> error + nat" where
  "pv_skip_space text n i =
     (if i < n then
        (case char_at text i of
           Inl e \<Rightarrow> Inl e
         | Inr ch \<Rightarrow> if isspace ch then pv_skip_space text n (i + 1) else Inr i)
      else Inr i)"
  by pat_completeness auto
termination
  by (relation "measure (\<lambda>(text, n, i). n - i)") auto

text \<open>The braced value: the loop ends behind the brace that brings the depth back to 0.\<close>

function pv_braces :: "str \<Rightarrow> nat \<Rightarrow> nat \<Rightarrow> int \<Rightarrow> error + nat" where
  "pv_braces text n i depth =
     (if i < n then
        (case char_at text i of
           Inl e \<Rightarrow> Inl e
         | Inr ch \<Rightarrow>
             if ch = LBRACE then pv_braces text n (i + 1) (depth + 1)
             else if ch = RBRACE then
               (if depth - 1 = 0 then Inr (i + 1) else pv_braces text n (i + 1) (depth - 1))
             else pv_braces text n (i + 1) depth)
      else Inr i)"
  by pat_completeness auto
termination
  by (relation "measure (\<lambda>(text, n, i, depth). n - i)") auto

text \<open>The quoted value: \<^verbatim>\<open>f'"{value}"'\<close> puts the span back between double quotes.\<close>

definition quoted :: "str \<Rightarrow> str" where
  "quoted v = [DQUOTE] @ v @ [DQUOTE]"

function pv_quoted :: "str \<Rightarrow> nat \<Rightarrow> nat \<Rightarrow> nat \<Rightarrow> bool \<Rightarrow> error + (str \<times> nat)" where
  "pv_quoted text n start i escaped =
     (if i < n then
        (case char_at text i of
           Inl e \<Rightarrow> Inl e
         | Inr ch \<Rightarrow>
             if escaped then pv_quoted text n start (i + 1) False
             else if ch = BACKSLASH then pv_quoted text n start (i + 1) True
             else if ch = DQUOTE then Inr (quoted (slice text start i), i + 1)
             else pv_quoted text n start (i + 1) escaped)
      else Inr (quoted (slice text start i), i))"
  by pat_completeness auto
termination
  by (relation "measure (\<lambda>(text, n, start, i, escaped). n - i)") auto

text \<open>\<^verbatim>\<open>while i < n and text[i] not in ",\n\r}": i += 1\<close>\<close>

function pv_bare :: "str \<Rightarrow> nat \<Rightarrow> nat \<Rightarrow> error + nat" where
  "pv_bare text n i =
     (if i < n then
        (case char_at text i of
           Inl e \<Rightarrow> Inl e
         | Inr ch \<Rightarrow> if ch \<notin> set [COMMA, LF, CR, RBRACE] then pv_bare text n (i + 1) else Inr i)
      else Inr i)"
  by pat_completeness auto
termination
  by (relation "measure (\<lambda>(text, n, i). n - i)") auto

definition parse_value :: "str \<Rightarrow> nat \<Rightarrow> error + (str \<times> nat)" where
  "parse_value text i0 =
     (let n = length text in
      case pv_skip_space text n i0 of
        Inl e \<Rightarrow> Inl e
      | Inr i \<Rightarrow>
          if i \<ge> n then Inr ([], i)
          else
            (case char_at text i of
               Inl e \<Rightarrow> Inl e
             | Inr ch \<Rightarrow>
                 if ch = LBRACE then
                   (case pv_braces text n i 0 of
                      Inl e \<Rightarrow> Inl e
                    | Inr i' \<Rightarrow> Inr (strip (slice text i i'), i'))
                 else if ch = DQUOTE then pv_quoted text n (i + 1) (i + 1) False
                 else
                   (case pv_bare text n i of
                      Inl e \<Rightarrow> Inl e
                    | Inr i' \<Rightarrow> Inr (strip (slice text i i'), i'))))"

section \<open>The parser\<close>

record BibEntry =
  entry_type :: str
  citekey :: str
  fields_map :: "str \<rightharpoonup> str"

text \<open>\<^verbatim>\<open>while i < n and depth > 0\<close>: the entry's field block ends at the brace matching its own.\<close>

function entry_depth_loop :: "str \<Rightarrow> nat \<Rightarrow> nat \<Rightarrow> int \<Rightarrow> error + nat" where
  "entry_depth_loop raw n i depth =
     (if i < n \<and> depth > 0 then
        (case char_at raw i of
           Inl e \<Rightarrow> Inl e
         | Inr ch \<Rightarrow>
             entry_depth_loop raw n (i + 1)
               (if ch = LBRACE then depth + 1 else if ch = RBRACE then depth - 1 else depth))
      else Inr i)"
  by pat_completeness auto
termination
  by (relation "measure (\<lambda>(raw, n, i, depth). n - i)") auto

text \<open>\<^verbatim>\<open>while j < len(fields_text) and fields_text[j] in "\n\r\t ,": j += 1\<close>\<close>

function skip_separators :: "str \<Rightarrow> nat \<Rightarrow> error + nat" where
  "skip_separators ft j =
     (if j < length ft then
        (case char_at ft j of
           Inl e \<Rightarrow> Inl e
         | Inr ch \<Rightarrow>
             if ch \<in> set [LF, CR, TAB, SPACE, COMMA] then skip_separators ft (j + 1)
             else Inr j)
      else Inr j)"
  by pat_completeness auto
termination
  by (relation "measure (\<lambda>(ft, j). length ft - j)") auto

text \<open>
  The trailing loop: \<^verbatim>\<open>while j < len(fields_text) and fields_text[j] not in ","\<close>, left by
  \<^verbatim>\<open>break\<close> at a line feed.
\<close>

function skip_to_comma :: "str \<Rightarrow> nat \<Rightarrow> error + nat" where
  "skip_to_comma ft j =
     (if j < length ft then
        (case char_at ft j of
           Inl e \<Rightarrow> Inl e
         | Inr ch \<Rightarrow>
             if ch \<noteq> COMMA then (if ch = LF then Inr j else skip_to_comma ft (j + 1))
             else Inr j)
      else Inr j)"
  by pat_completeness auto
termination
  by (relation "measure (\<lambda>(ft, j). length ft - j)") auto

text \<open>
  The store of one field: the test \<^verbatim>\<open>if value:\<close> is on the value as \<^verbatim>\<open>_parse_value\<close>
  returned it; what is stored is that value cleaned.
\<close>

definition store_field ::
  "(str \<rightharpoonup> str) \<Rightarrow> str \<Rightarrow> str \<Rightarrow> error + (str \<rightharpoonup> str)" where
  "store_field fs name v =
     (if v \<noteq> [] then
        (case strip_outer_braces v of
           Inl e \<Rightarrow> Inl e
         | Inr w \<Rightarrow> Inr (fs(name \<mapsto> clean_tex w)))
      else Inr fs)"

text \<open>
  One round of the field loop, entered with \<open>j < length ft\<close>: \<open>None\<close> is a \<^verbatim>\<open>break\<close>,
  otherwise the next cursor and the field map.
\<close>

definition field_step ::
  "str \<Rightarrow> nat \<Rightarrow> (str \<rightharpoonup> str) \<Rightarrow> error + (nat \<times> (str \<rightharpoonup> str)) option" where
  "field_step ft j0 fs =
     (case skip_separators ft j0 of
        Inl e \<Rightarrow> Inl e
      | Inr j \<Rightarrow>
          if j \<ge> length ft then Inr None
          else
            (case match_field_name (drop j ft) of
               None \<Rightarrow> Inr None
             | Some (g, len) \<Rightarrow>
                 (case parse_value ft (j + len) of
                    Inl e \<Rightarrow> Inl e
                  | Inr (v, j2) \<Rightarrow>
                      (case store_field fs (lower_ascii g) v of
                         Inl e \<Rightarrow> Inl e
                       | Inr fs' \<Rightarrow>
                           (case skip_to_comma ft j2 of
                              Inl e \<Rightarrow> Inl e
                            | Inr j3 \<Rightarrow>
                                if j3 < length ft then
                                  (case char_at ft j3 of
                                     Inl e \<Rightarrow> Inl e
                                   | Inr ch \<Rightarrow>
                                       Inr (Some (if ch = COMMA then j3 + 1 else j3, fs')))
                                else Inr (Some (j3, fs')))))))"

text \<open>
  \<^verbatim>\<open>while j < len(fields_text)\<close> around the rounds. Nothing in the loop's own text bounds the
  number of rounds, so the loop is a partial function: \<open>None\<close> stands for a run that never
  ends, \<open>Some (Inl e)\<close> for an exception, \<open>Some (Inr fs)\<close> for the field map.
\<close>

partial_function (option) field_loop ::
  "str \<Rightarrow> nat \<Rightarrow> (str \<rightharpoonup> str) \<Rightarrow> (error + (str \<rightharpoonup> str)) option" where
  "field_loop ft j fs =
     (if j < length ft then
        (case field_step ft j fs of
           Inl e \<Rightarrow> Some (Inl e)
         | Inr None \<Rightarrow> Some (Inr fs)
         | Inr (Some (j', fs')) \<Rightarrow> field_loop ft j' fs')
      else Some (Inr fs))"

text \<open>
  One round of the main loop of \<^verbatim>\<open>parse_bibtex\<close>, entered with \<open>i < n\<close>: \<open>Break\<close> for
  either \<^verbatim>\<open>break\<close>, \<open>Continue i\<close> for the \<^verbatim>\<open>continue\<close> with the cursor it leaves,
  \<open>Append i e\<close> for a round that reaches \<^verbatim>\<open>entries.append\<close>. In
  \<^verbatim>\<open>raw[fields_text_start : i - 1]\<close> the cursor is at least \<open>comma + 1\<close>, so \<open>i - 1\<close> is
  not negative.
\<close>

datatype step = Break | Continue nat | Append nat BibEntry

definition scan_step :: "str \<Rightarrow> nat \<Rightarrow> nat \<Rightarrow> (error + step) option" where
  "scan_step raw n i0 =
     (case find_from AT raw i0 of
        None \<Rightarrow> Some (Inr Break)
      | Some at \<Rightarrow>
          (case match_entry_type (drop (at + 1) raw) of
             None \<Rightarrow> Some (Inr (Continue (at + 1)))
           | Some (g, len) \<Rightarrow>
               (case find_from COMMA raw (at + 1 + len) of
                  None \<Rightarrow> Some (Inr Break)
                | Some comma \<Rightarrow>
                    (case entry_depth_loop raw n (comma + 1) 1 of
                       Inl e \<Rightarrow> Some (Inl e)
                     | Inr i \<Rightarrow>
                         (case field_loop (slice raw (comma + 1) (i - 1)) 0 Map.empty of
                            None \<Rightarrow> None
                          | Some (Inl e) \<Rightarrow> Some (Inl e)
                          | Some (Inr fs) \<Rightarrow>
                              Some (Inr (Append i
                                \<lparr>entry_type = lower_ascii g,
                                 citekey = strip (slice raw (at + 1 + len) comma),
                                 fields_map = fs\<rparr>)))))))"

text \<open>\<^verbatim>\<open>while i < n\<close>, the scan for entries; results as for the field loop.\<close>

partial_function (option) scan_loop ::
  "str \<Rightarrow> nat \<Rightarrow> nat \<Rightarrow> BibEntry list \<Rightarrow> (error + BibEntry list) option" where
  "scan_loop raw n i entries =
     (if i < n then
        (case scan_step raw n i of
           None \<Rightarrow> None
         | Some (Inl e) \<Rightarrow> Some (Inl e)
         | Some (Inr Break) \<Rightarrow> Some (Inr entries)
         | Some (Inr (Continue i')) \<Rightarrow> scan_loop raw n i' entries
         | Some (Inr (Append i' e)) \<Rightarrow> scan_loop raw n i' (entries @ [e]))
      else Some (Inr entries))"

text \<open>The lines whose first character after leading whitespace is a percent sign are dropped.\<close>

definition drop_comments :: "str \<Rightarrow> str" where
  "drop_comments raw =
     join_lines (filter (\<lambda>line. \<not> startswith (lstrip line) [PERCENT]) (splitlines raw))"

definition parse_bibtex :: "str \<Rightarrow> (error + BibEntry list) option" where
  "parse_bibtex raw0 = (let raw = drop_comments raw0 in scan_loop raw (length raw) 0 [])"

section \<open>Projection\<close>

text \<open>
  A publication is the \<^verbatim>\<open>dict\<close> that \<^verbatim>\<open>entry_to_publication\<close> builds: keys in insertion order
  with the values \<^verbatim>\<open>json.dump\<close> can write. The keys of a publication and of its links are
  the program's own literals and are kept as such.
\<close>

datatype json = JNull | JInt int | JStr str | JArr "json list" | JObj "(string \<times> json) list"

type_synonym publication = "(string \<times> json) list"

text \<open>\<^verbatim>\<open>f.get(k, d)\<close>, and \<^verbatim>\<open>f.get(k)\<close> read as a condition.\<close>

definition get_or :: "(str \<rightharpoonup> str) \<Rightarrow> str \<Rightarrow> str \<Rightarrow> str" where
  "get_or f k d = (case f k of None \<Rightarrow> d | Some v \<Rightarrow> v)"

definition truthy :: "str option \<Rightarrow> bool" where
  "truthy r = (case r of None \<Rightarrow> False | Some v \<Rightarrow> v \<noteq> [])"

definition title_of :: "(str \<rightharpoonup> str) \<Rightarrow> str" where
  "title_of f = strip (get_or f (lit ''title'') [])"

definition authors_of :: "(str \<rightharpoonup> str) \<Rightarrow> str list" where
  "authors_of f =
     (let authors_raw = get_or f (lit ''author'') []
      in if authors_raw \<noteq> [] then filter (\<lambda>a. a \<noteq> []) (map strip (split_and authors_raw)) else [])"

text \<open>
  The year: \<^verbatim>\<open>int(re.findall(r"\d{4}", year_str)[0])\<close> inside \<^verbatim>\<open>try\<close>; the IndexError of an
  empty match list ends in \<^verbatim>\<open>year = None\<close>.
\<close>

definition year_of :: "(str \<rightharpoonup> str) \<Rightarrow> int option" where
  "year_of f =
     (let year_str = strip (get_or f (lit ''year'') [])
      in if year_str \<noteq> [] then
           (case findall_d4 year_str of
              [] \<Rightarrow> None
            | m # _ \<Rightarrow> Some (py_int m))
         else None)"

definition venue_of :: "(str \<rightharpoonup> str) \<Rightarrow> str" where
  "venue_of f =
     strip (if truthy (f (lit ''journal'')) then get_or f (lit ''journal'') []
            else if truthy (f (lit ''booktitle'')) then get_or f (lit ''booktitle'') []
            else if truthy (f (lit ''publisher'')) then get_or f (lit ''publisher'') []
            else if truthy (f (lit ''school'')) then get_or f (lit ''school'') []
            else [])"

definition links_of :: "(str \<rightharpoonup> str) \<Rightarrow> (string \<times> json) list" where
  "links_of f =
     (if truthy (f (lit ''doi'')) then [(''doi'', JStr (strip (get_or f (lit ''doi'') [])))] else []) @
     (if truthy (f (lit ''url'')) then [(''url'', JStr (strip (get_or f (lit ''url'') [])))] else [])"

text \<open>\<^verbatim>\<open>pub.pop(k)\<close> for a key the dict holds.\<close>

definition dict_pop :: "string \<Rightarrow> publication \<Rightarrow> publication" where
  "dict_pop k d = filter (\<lambda>kv. fst kv \<noteq> k) d"

definition entry_to_publication :: "BibEntry \<Rightarrow> publication" where
  "entry_to_publication e =
     (let f = fields_map e;
          pub0 = [(''title'', JStr (title_of f)),
                  (''authors'', JArr (map JStr (authors_of f))),
                  (''year'', (case year_of f of None \<Rightarrow> JNull | Some y \<Rightarrow> JInt y)),
                  (''venue'', JStr (venue_of f)),
                  (''type'', JStr (entry_type e)),
                  (''links'', JObj (links_of f))];
          pub1 = (if map_of pub0 ''authors'' = Some (JArr []) then dict_pop ''authors'' pub0 else pub0);
          pub2 = (if map_of pub1 ''year'' = Some JNull then dict_pop ''year'' pub1 else pub1);
          pub3 = (if map_of pub2 ''venue'' = Some (JStr []) then dict_pop ''venue'' pub2 else pub2);
          pub4 = (if map_of pub3 ''links'' = Some (JObj []) then dict_pop ''links'' pub3 else pub3)
      in pub4)"

section \<open>Sorting\<close>

text \<open>
  \<^verbatim>\<open>sort_key\<close> of \<^verbatim>\<open>main\<close>: \<^verbatim>\<open>p.get("year", 0)\<close> negated when it is an integer, and the title
  in lower case, \<open>low\<close> standing for \<^verbatim>\<open>str.lower\<close>. Projection always stores a text under
  \<^verbatim>\<open>title\<close>. \<^verbatim>\<open>list.sort\<close> is stable and ascending in the key; tuples compare
  lexicographically, integers by value, texts lexicographically by code point.
\<close>

definition sort_key_pub :: "(str \<Rightarrow> str) \<Rightarrow> publication \<Rightarrow> int \<times> str" where
  "sort_key_pub low p =
     ((case map_of p ''year'' of Some (JInt y) \<Rightarrow> - y | _ \<Rightarrow> 0),
      low (case map_of p ''title'' of Some (JStr t) \<Rightarrow> t | _ \<Rightarrow> []))"

definition sort_pubs :: "(str \<Rightarrow> str) \<Rightarrow> publication list \<Rightarrow> publication list" where
  "sort_pubs low pubs = sort_key (sort_key_pub low) pubs"

section \<open>Serialization\<close>

text \<open>
  \<^verbatim>\<open>json.dump\<close> with \<^verbatim>\<open>ensure_ascii=False\<close>: a text goes between double quotes with the
  double quote, the backslash and the control characters below 0x20 escaped, every other
  character as it is; an integer in decimal; keys in the order of the dict.
\<close>

definition hex_digit :: "nat \<Rightarrow> nat" where
  "hex_digit k = lit ''0123456789abcdef'' ! k"

definition escape_char :: "nat \<Rightarrow> str" where
  "escape_char c =
     (if c = DQUOTE then [BACKSLASH, DQUOTE]
      else if c = BACKSLASH then [BACKSLASH, BACKSLASH]
      else if c = LF then BACKSLASH # lit ''n''
      else if c = CR then BACKSLASH # lit ''r''
      else if c = TAB then BACKSLASH # lit ''t''
      else if c = 0x08 then BACKSLASH # lit ''b''
      else if c = 0x0C then BACKSLASH # lit ''f''
      else if c < 0x20 then BACKSLASH # lit ''u00'' @ [hex_digit (c div 16), hex_digit (c mod 16)]
      else [c])"

definition encode_str :: "str \<Rightarrow> str" where
  "encode_str s = [DQUOTE] @ concat (map escape_char s) @ [DQUOTE]"

function dec_digits :: "nat \<Rightarrow> str" where
  "dec_digits k =
     (if k < 10 then [lit ''0123456789'' ! k]
      else dec_digits (k div 10) @ [lit ''0123456789'' ! (k mod 10)])"
  by pat_completeness auto
termination
  by (relation "measure id") auto

definition str_int :: "int \<Rightarrow> str" where
  "str_int k = (if k < 0 then HYPHEN # dec_digits (nat (- k)) else dec_digits (nat k))"

fun join_with :: "str \<Rightarrow> str list \<Rightarrow> str" where
  "join_with sep [] = []"
| "join_with sep [x] = x"
| "join_with sep (x # y # ys) = x @ sep @ join_with sep (y # ys)"

text \<open>Without \<^verbatim>\<open>indent\<close> the separators are a comma and a colon, each followed by a space.\<close>

fun dumps :: "json \<Rightarrow> str" where
  "dumps JNull = lit ''null''"
| "dumps (JInt k) = str_int k"
| "dumps (JStr s) = encode_str s"
| "dumps (JArr xs) = lit ''['' @ join_with (lit '', '') (map dumps xs) @ lit '']''"
| "dumps (JObj kvs) =
     lit ''{'' @
     join_with (lit '', '') (map (\<lambda>kv. encode_str (lit (fst kv)) @ lit '': '' @ dumps (snd kv)) kvs) @
     lit ''}''"

text \<open>
  With \<^verbatim>\<open>indent=2\<close> every item of a non-empty list or dict starts a line, indented by two
  spaces for each level, and the items are separated by a bare comma.
\<close>

definition newline_indent :: "nat \<Rightarrow> str" where
  "newline_indent level = LF # replicate (2 * level) SPACE"

fun dumps_indent :: "nat \<Rightarrow> json \<Rightarrow> str" where
  "dumps_indent level JNull = lit ''null''"
| "dumps_indent level (JInt k) = str_int k"
| "dumps_indent level (JStr s) = encode_str s"
| "dumps_indent level (JArr xs) =
     (if xs = [] then lit ''[]''
      else lit ''['' @ newline_indent (level + 1) @
           join_with (lit '','' @ newline_indent (level + 1)) (map (dumps_indent (level + 1)) xs) @
           newline_indent level @ lit '']'')"
| "dumps_indent level (JObj kvs) =
     (if kvs = [] then lit ''{}''
      else lit ''{'' @ newline_indent (level + 1) @
           join_with (lit '','' @ newline_indent (level + 1))
             (map (\<lambda>kv. encode_str (lit (fst kv)) @ lit '': '' @ dumps_indent (level + 1) (snd kv)) kvs) @
           newline_indent level @ lit ''}'')"

text \<open>
  The writes of \<^verbatim>\<open>main\<close> after sorting, as the list of the files opened for writing, each
  with all that is written to it: the JSON document, and the script beside it when
  \<^verbatim>\<open>outp.lower().endswith(".json")\<close>, at \<^verbatim>\<open>outp[:-5] + ".js"\<close>. A file that cannot be
  opened or written is outside this model.
\<close>

definition js_header :: str where
  "js_header = lit ''// Auto-generated from BibTeX. Do not edit by hand.'' @ [LF]"

definition written_files ::
  "(str \<Rightarrow> str) \<Rightarrow> str \<Rightarrow> publication list \<Rightarrow> (str \<times> str) list" where
  "written_files low outp pubs =
     (outp, dumps_indent 0 (JArr (map JObj pubs)) @ [LF]) #
     (if endswith (low outp) (lit ''.json'')
      then [(slice outp 0 (length outp - 5) @ lit ''.js'',
             js_header @ lit ''window.PUBLICATIONS = '' @ dumps (JArr (map JObj pubs)) @
             lit '';'' @ [LF])]
      else [])"

section \<open>The pipeline\<close>

text \<open>
  \<^verbatim>\<open>main\<close> between reading the input and writing the output: parse, project every entry,
  sort. An exception or a non-returning run of the parser is passed on.
\<close>

definition publications :: "(str \<Rightarrow> str) \<Rightarrow> str \<Rightarrow> (error + publication list) option" where
  "publications low raw =
     (case parse_bibtex raw of
        None \<Rightarrow> None
      | Some (Inl e) \<Rightarrow> Some (Inl e)
      | Some (Inr entries) \<Rightarrow> Some (Inr (sort_pubs low (map entry_to_publication entries))))"

section \<open>Inputs of the examples\<close>

definition example_entry :: str where
  "example_entry = lit ''@article{k2023, title={A Study}, author={A. One and B. Two}, year={2023}, journal={Nature}, doi={10.1/x}}''"

definition example_bibentry :: BibEntry where
  "example_bibentry =
     \<lparr>entry_type = lit ''article'', citekey = lit ''k2023'',
      fields_map = [lit ''title'' \<mapsto> lit ''A Study'', lit ''author'' \<mapsto> lit ''A. One and B. Two'',
                    lit ''year'' \<mapsto> lit ''2023'', lit ''journal'' \<mapsto> lit ''Nature'',
                    lit ''doi'' \<mapsto> lit ''10.1/x'']\<rparr>"

definition bare_entry :: str where
  "bare_entry = lit ''@Misc{k,}''"

definition stray_at :: str where
  "stray_at = lit ''@1x''"

definition json_path :: str where
  "json_path = lit ''pubs.JSON''"

definition txt_path :: str where
  "txt_path = lit ''pubs.txt''"



definition entry_2020_B :: BibEntry where
  "entry_2020_B =
     \<lparr>entry_type = lit ''misc'', citekey = lit ''x'',
      fields_map = [lit ''title'' \<mapsto> lit ''B'', lit ''year'' \<mapsto> lit ''2020'']\<rparr>"

definition entry_absent_C :: BibEntry where
  "entry_absent_C =
     \<lparr>entry_type = lit ''misc'', citekey = lit ''z'', fields_map = [lit ''title'' \<mapsto> lit ''C'']\<rparr>"

definition rec_2020_B :: publication where
  "rec_2020_B = [(''title'', JStr (lit ''B'')), (''year'', JInt 2020), (''type'', JStr (lit ''misc''))]"

definition rec_2022_A :: publication where
  "rec_2022_A = [(''title'', JStr (lit ''A'')), (''year'', JInt 2022), (''type'', JStr (lit ''misc''))]"

definition rec_absent_C :: publication where
  "rec_absent_C = [(''title'', JStr (lit ''C'')), (''type'', JStr (lit ''misc''))]"





section \<open>Every loop returns, and the cursor only moves forward\<close>

declare pv_skip_space.simps [simp del] pv_braces.simps [simp del] pv_quoted.simps [simp del]
  pv_bare.simps [simp del] entry_depth_loop.simps [simp del] skip_separators.simps [simp del]
  skip_to_comma.simps [simp del]

lemma char_at_in_range: "i < length s \<Longrightarrow> char_at s i = Inr (s ! i)"
  by (simp add: char_at_def)

lemma pv_skip_space_ok:
  "n \<le> length s \<Longrightarrow> \<exists>j. pv_skip_space s n i = Inr j \<and> i \<le> j \<and> j \<le> max i n"
proof (induction s n i rule: pv_skip_space.induct)
  case (1 s n i)
  show ?case
  proof (cases "i < n")
    case True
    then have c: "char_at s i = Inr (s ! i)" using 1(2) by (simp add: char_at_in_range)
    from 1(1)[OF True c _ 1(2)] True c show ?thesis
      by (subst pv_skip_space.simps) (auto simp: max_def split: if_splits)
  next
    case False
    then show ?thesis by (subst pv_skip_space.simps) auto
  qed
qed

lemma pv_braces_ok:
  "n \<le> length s \<Longrightarrow> \<exists>j. pv_braces s n i d = Inr j \<and> i \<le> j \<and> j \<le> max i n"
proof (induction s n i d rule: pv_braces.induct)
  case (1 s n i d)
  show ?case
  proof (cases "i < n")
    case True
    then have c: "char_at s i = Inr (s ! i)" using 1(4) by (simp add: char_at_in_range)
    from 1(1)[OF True c _ 1(4)] 1(2)[OF True c _ _ _ 1(4)] 1(3)[OF True c _ _ 1(4)] True c
    show ?thesis
      by (subst pv_braces.simps) (auto simp: max_def split: if_splits)
  next
    case False
    then show ?thesis by (subst pv_braces.simps) auto
  qed
qed

lemma pv_quoted_ok:
  "n \<le> length s \<Longrightarrow> \<exists>v j. pv_quoted s n st i esc = Inr (v, j) \<and> i \<le> j \<and> j \<le> max i n"
proof (induction s n st i esc rule: pv_quoted.induct)
  case (1 s n st i esc)
  show ?case
  proof (cases "i < n")
    case True
    then have c: "char_at s i = Inr (s ! i)" using 1(4) by (simp add: char_at_in_range)
    from 1(1)[OF True c _ 1(4)] 1(2)[OF True c _ _ 1(4)] 1(3)[OF True c _ _ _ 1(4)] True c
    show ?thesis
      by (subst pv_quoted.simps, cases esc) (auto simp: max_def split: if_splits)
  next
    case False
    then show ?thesis by (subst pv_quoted.simps) auto
  qed
qed

lemma pv_bare_ok:
  "n \<le> length s \<Longrightarrow> \<exists>j. pv_bare s n i = Inr j \<and> i \<le> j \<and> j \<le> max i n"
proof (induction s n i rule: pv_bare.induct)
  case (1 s n i)
  show ?case
  proof (cases "i < n")
    case True
    then have c: "char_at s i = Inr (s ! i)" using 1(2) by (simp add: char_at_in_range)
    from 1(1)[OF True c _ 1(2)] True c show ?thesis
      by (subst pv_bare.simps) (auto simp: max_def split: if_splits)
  next
    case False
    then show ?thesis by (subst pv_bare.simps) auto
  qed
qed

lemma parse_value_ok:
  "\<exists>v j. parse_value s i = Inr (v, j) \<and> i \<le> j \<and> j \<le> max i (length s)"
proof -
  obtain i1 where a: "pv_skip_space s (length s) i = Inr i1" "i \<le> i1" "i1 \<le> max i (length s)"
    using pv_skip_space_ok [of "length s" s i] by auto
  show ?thesis
  proof (cases "i1 < length s")
    case False
    with a show ?thesis by (simp add: parse_value_def)
  next
    case True
    then have c: "char_at s i1 = Inr (s ! i1)" by (simp add: char_at_in_range)
    obtain j1 where b: "pv_braces s (length s) i1 0 = Inr j1" "i1 \<le> j1" "j1 \<le> max i1 (length s)"
      using pv_braces_ok [of "length s" s i1 0] by auto
    obtain v2 j2 where q: "pv_quoted s (length s) (i1 + 1) (i1 + 1) False = Inr (v2, j2)"
        "i1 + 1 \<le> j2" "j2 \<le> max (i1 + 1) (length s)"
      using pv_quoted_ok [of "length s" s "i1 + 1" "i1 + 1" False] by auto
    obtain j3 where w: "pv_bare s (length s) i1 = Inr j3" "i1 \<le> j3" "j3 \<le> max i1 (length s)"
      using pv_bare_ok [of "length s" s i1] by auto
    from a True c b q w show ?thesis
      by (auto simp: parse_value_def Let_def max_def split: if_splits)
  qed
qed

lemma entry_depth_loop_ok:
  "n \<le> length s \<Longrightarrow> \<exists>j. entry_depth_loop s n i d = Inr j \<and> i \<le> j \<and> j \<le> max i n"
proof (induction s n i d rule: entry_depth_loop.induct)
  case (1 s n i d)
  show ?case
  proof (cases "i < n \<and> d > 0")
    case True
    then have c: "char_at s i = Inr (s ! i)" using 1(2) by (simp add: char_at_in_range)
    from 1(1)[OF True c 1(2)] True c show ?thesis
      by (subst entry_depth_loop.simps) (auto simp: max_def split: if_splits)
  next
    case False
    then show ?thesis by (subst entry_depth_loop.simps) auto
  qed
qed

lemma skip_separators_ok:
  "\<exists>j'. skip_separators ft j = Inr j' \<and> j \<le> j' \<and> j' \<le> max j (length ft)"
proof (induction ft j rule: skip_separators.induct)
  case (1 ft j)
  show ?case
  proof (cases "j < length ft")
    case True
    then have c: "char_at ft j = Inr (ft ! j)" by (simp add: char_at_in_range)
    from 1[OF True c] True c show ?thesis
      by (subst skip_separators.simps) (auto simp: max_def split: if_splits)
  next
    case False
    then show ?thesis by (subst skip_separators.simps) auto
  qed
qed

lemma skip_to_comma_ok:
  "\<exists>j'. skip_to_comma ft j = Inr j' \<and> j \<le> j' \<and> j' \<le> max j (length ft)"
proof (induction ft j rule: skip_to_comma.induct)
  case (1 ft j)
  show ?case
  proof (cases "j < length ft")
    case True
    then have c: "char_at ft j = Inr (ft ! j)" by (simp add: char_at_in_range)
    from 1[OF True c] True c show ?thesis
      by (subst skip_to_comma.simps) (auto simp: max_def split: if_splits)
  next
    case False
    then show ?thesis by (subst skip_to_comma.simps) auto
  qed
qed

lemma strip_outer_braces_ok: "\<exists>w. strip_outer_braces v = Inr w"
  by (simp add: strip_outer_braces_def Let_def char_at_def)

lemma store_field_ok: "\<exists>fs'. store_field fs name v = Inr fs'"
  using strip_outer_braces_ok [of v] by (auto simp: store_field_def)

lemma match_field_name_len:
  assumes "match_field_name s = Some (g, len)"
  shows "0 < len \<and> len \<le> length s"
proof -
  from assms obtain a t where s: "s = a # t"
    by (cases s) (auto simp: match_field_name_def)
  have "length (takeWhile is_name_char t) + length (dropWhile is_name_char t) = length t"
    by (metis length_append takeWhile_dropWhile_id)
  moreover have "length (takeWhile isspace (dropWhile is_name_char t))
      + length (dropWhile isspace (dropWhile is_name_char t)) = length (dropWhile is_name_char t)"
    by (metis length_append takeWhile_dropWhile_id)
  ultimately show ?thesis using assms s
    by (auto simp: match_field_name_def Let_def split: if_splits list.splits)
qed

lemma field_step_ok:
  "\<exists>r. field_step ft j fs = Inr r \<and>
       (\<forall>j' fs'. r = Some (j', fs') \<longrightarrow> j < j' \<and> j' \<le> max j (length ft))"
proof -
  obtain j1 where a: "skip_separators ft j = Inr j1" "j \<le> j1" "j1 \<le> max j (length ft)"
    using skip_separators_ok [of ft j] by auto
  show ?thesis
  proof (cases "j1 < length ft")
    case False
    with a show ?thesis by (simp add: field_step_def)
  next
    case True
    show ?thesis
    proof (cases "match_field_name (drop j1 ft)")
      case None
      with a True show ?thesis by (simp add: field_step_def)
    next
      case (Some m)
      obtain g len where m: "m = (g, len)" by (cases m)
      with Some have len: "0 < len" "j1 + len \<le> length ft"
        using match_field_name_len [of "drop j1 ft" g len] True by auto
      obtain v j2 where p: "parse_value ft (j1 + len) = Inr (v, j2)" "j1 + len \<le> j2" "j2 \<le> length ft"
        using parse_value_ok [of ft "j1 + len"] len by (auto simp: max_def split: if_splits)
      obtain fs' where st: "store_field fs (lower_ascii g) v = Inr fs'"
        using store_field_ok by blast
      obtain j3 where c: "skip_to_comma ft j2 = Inr j3" "j2 \<le> j3" "j3 \<le> length ft"
        using skip_to_comma_ok [of ft j2] p by (auto simp: max_def split: if_splits)
      from a True Some m len p st c show ?thesis
        by (auto simp: field_step_def char_at_in_range max_def)
    qed
  qed
qed

lemma field_loop_invariant:
  assumes "P fs"
    and step: "\<And>j fs j' fs'. P fs \<Longrightarrow> field_step ft j fs = Inr (Some (j', fs')) \<Longrightarrow> P fs'"
  shows "\<exists>fs'. field_loop ft j fs = Some (Inr fs') \<and> P fs'"
  using assms(1)
proof (induction "length ft - j" arbitrary: j fs rule: less_induct)
  case less
  show ?case
  proof (cases "j < length ft")
    case False
    with less.prems show ?thesis by (subst field_loop.simps) simp
  next
    case True
    obtain r where r: "field_step ft j fs = Inr r"
      and pr: "\<forall>j' fs'. r = Some (j', fs') \<longrightarrow> j < j' \<and> j' \<le> max j (length ft)"
      using field_step_ok [of ft j fs] by blast
    show ?thesis
    proof (cases r)
      case None
      with True r less.prems show ?thesis by (subst field_loop.simps) simp
    next
      case (Some p)
      obtain j' fs' where p: "p = (j', fs')" by (cases p)
      with Some pr have "j < j'" by simp
      with True have "length ft - j' < length ft - j" by arith
      moreover have "P fs'" using step [OF less.prems] r Some p by simp
      ultimately obtain fs'' where "field_loop ft j' fs' = Some (Inr fs'')" "P fs''"
        using less.hyps by blast
      with True r Some p show ?thesis by (subst field_loop.simps) simp
    qed
  qed
qed

lemma field_loop_returns: "\<exists>fs'. field_loop ft j fs = Some (Inr fs')"
  using field_loop_invariant [of "\<lambda>_. True" fs ft j] by blast

lemma takeWhile_neq_hit:
  "c \<in> set xs \<Longrightarrow>
     length (takeWhile (\<lambda>x. x \<noteq> c) xs) < length xs \<and> xs ! length (takeWhile (\<lambda>x. x \<noteq> c) xs) = c"
  by (induction xs) auto

lemma find_from_Some:
  assumes "find_from c s i = Some k"
  shows "i \<le> k \<and> k < length s \<and> s ! k = c"
proof -
  from assms have mem: "c \<in> set (drop i s)"
    and k: "k = i + length (takeWhile (\<lambda>x. x \<noteq> c) (drop i s))"
    by (auto simp: find_from_def split: if_splits)
  let ?m = "length (takeWhile (\<lambda>x. x \<noteq> c) (drop i s))"
  from takeWhile_neq_hit [OF mem] have lt: "?m < length (drop i s)" and hit: "drop i s ! ?m = c"
    by blast+
  from lt have "i + ?m < length s" by simp
  moreover from this hit have "s ! (i + ?m) = c" by (simp add: nth_drop)
  ultimately show ?thesis using k by simp
qed

lemma match_entry_type_Some:
  assumes "match_entry_type s = Some (g, len)"
  shows "0 < len \<and> len \<le> length s \<and> g \<noteq> [] \<and> list_all is_alpha g"
proof -
  have "length (takeWhile is_alpha s) + length (dropWhile is_alpha s) = length s"
    by (metis length_append takeWhile_dropWhile_id)
  moreover have "length (takeWhile isspace (dropWhile is_alpha s))
      + length (dropWhile isspace (dropWhile is_alpha s)) = length (dropWhile is_alpha s)"
    by (metis length_append takeWhile_dropWhile_id)
  moreover have "list_all is_alpha (takeWhile is_alpha s)"
    by (simp add: list_all_iff) (meson set_takeWhileD)
  ultimately show ?thesis using assms
    by (auto simp: match_entry_type_def Let_def split: if_splits list.splits)
qed

lemma scan_step_ok:
  assumes "n \<le> length raw"
  shows "\<exists>st. scan_step raw n i = Some (Inr st) \<and>
           (\<forall>i'. st = Continue i' \<longrightarrow> i < i' \<and> i' \<le> length raw) \<and>
           (\<forall>i' e. st = Append i' e \<longrightarrow> i < i')"
proof (cases "find_from AT raw i")
  case None
  then show ?thesis by (simp add: scan_step_def)
next
  case (Some at)
  then have at: "i \<le> at" "at < length raw" using find_from_Some by blast+
  show ?thesis
  proof (cases "match_entry_type (drop (at + 1) raw)")
    case None
    with Some at show ?thesis by (simp add: scan_step_def)
  next
    case m: (Some gl)
    obtain g len where gl: "gl = (g, len)" by (cases gl)
    show ?thesis
    proof (cases "find_from COMMA raw (at + 1 + len)")
      case None
      with Some m gl show ?thesis by (simp add: scan_step_def)
    next
      case c: (Some comma)
      then have comma: "at + 1 + len \<le> comma" using find_from_Some by blast
      obtain k where k: "entry_depth_loop raw n (comma + 1) 1 = Inr k" "comma + 1 \<le> k"
        using entry_depth_loop_ok [OF assms, of "comma + 1" 1] by blast
      obtain fs where "field_loop (slice raw (comma + 1) (k - 1)) 0 Map.empty = Some (Inr fs)"
        using field_loop_returns by blast
      with Some m gl c k at comma show ?thesis by (simp add: scan_step_def)
    qed
  qed
qed

lemma scan_loop_invariant:
  assumes "n \<le> length raw" and "P acc"
    and step: "\<And>i acc i' e. P acc \<Longrightarrow> scan_step raw n i = Some (Inr (Append i' e)) \<Longrightarrow> P (acc @ [e])"
  shows "\<exists>es. scan_loop raw n i acc = Some (Inr es) \<and> P es"
  using assms(2)
proof (induction "n - i" arbitrary: i acc rule: less_induct)
  case less
  show ?case
  proof (cases "i < n")
    case False
    with less.prems show ?thesis by (subst scan_loop.simps) simp
  next
    case True
    obtain st where st: "scan_step raw n i = Some (Inr st)"
      and c: "\<forall>i'. st = Continue i' \<longrightarrow> i < i' \<and> i' \<le> length raw"
      and a: "\<forall>i' e. st = Append i' e \<longrightarrow> i < i'"
      using scan_step_ok [OF assms(1), of i] by blast
    show ?thesis
    proof (cases st)
      case Break
      with True st less.prems show ?thesis by (subst scan_loop.simps) simp
    next
      case (Continue i')
      with c True have "n - i' < n - i" by auto
      then obtain es where "scan_loop raw n i' acc = Some (Inr es)" "P es"
        using less.hyps less.prems by blast
      with True st Continue show ?thesis by (subst scan_loop.simps) simp
    next
      case (Append i' e)
      with a True have "n - i' < n - i" by auto
      moreover have "P (acc @ [e])" using step [OF less.prems] st Append by simp
      ultimately obtain es where "scan_loop raw n i' (acc @ [e]) = Some (Inr es)" "P es"
        using less.hyps by blast
      with True st Append show ?thesis by (subst scan_loop.simps) simp
    qed
  qed
qed

lemma parse_bibtex_invariant:
  assumes "P []"
    and "\<And>s i acc i' e. P acc \<Longrightarrow> scan_step s (length s) i = Some (Inr (Append i' e)) \<Longrightarrow> P (acc @ [e])"
  shows "\<exists>entries. parse_bibtex raw = Some (Inr entries) \<and> P entries"
  unfolding parse_bibtex_def Let_def
  using scan_loop_invariant [of "length (drop_comments raw)" "drop_comments raw" P "[]" 0] assms
  by blast

section \<open>Projection in closed form\<close>

lemma entry_to_publication_eq:
  "entry_to_publication e =
     [(''title'', JStr (title_of (fields_map e)))] @
     (if authors_of (fields_map e) = [] then []
      else [(''authors'', JArr (map JStr (authors_of (fields_map e))))]) @
     (case year_of (fields_map e) of None \<Rightarrow> [] | Some y \<Rightarrow> [(''year'', JInt y)]) @
     (if venue_of (fields_map e) = [] then [] else [(''venue'', JStr (venue_of (fields_map e)))]) @
     [(''type'', JStr (entry_type e))] @
     (if links_of (fields_map e) = [] then [] else [(''links'', JObj (links_of (fields_map e)))])"
  by (cases "year_of (fields_map e)") (simp_all add: entry_to_publication_def Let_def dict_pop_def)

section \<open>Evaluation on concrete texts\<close>

text \<open>The unfoldings that let the simplifier run the program on a given text.\<close>

lemmas char_simps = lit_def isspace_def is_alpha_def is_name_char_def lower_ascii_def
  lower_ascii_char_def not_brace_def is_linebreak_def

lemmas digit_simps = is_decimal_def decimal_value_def decimal_zeros_def py_int_def

lemmas string_simps = char_at_def slice_def strip_def lstrip_def rstrip_def rstrip_comma_def
  startswith_def endswith_def find_from_def splitlines_def split_and_def

lemmas parser_simps = match_entry_type_def match_field_name_def strip_outer_braces_def
  clean_tex_def quoted_def parse_value_def store_field_def field_step_def
  pv_skip_space.simps pv_braces.simps pv_quoted.simps pv_bare.simps entry_depth_loop.simps
  skip_separators.simps skip_to_comma.simps field_loop.simps scan_step_def drop_comments_def Let_def

lemmas strip_simps = strip_def lstrip_def rstrip_def

lemma example_step:
  "scan_step example_entry 105 0 = Some (Inr (Append 105 example_bibentry))"
  unfolding example_entry_def example_bibentry_def
  by (simp add: char_simps string_simps parser_simps)

lemma example_parse: "parse_bibtex example_entry = Some (Inr [example_bibentry])"
proof -
  have d: "drop_comments example_entry = example_entry"
    unfolding example_entry_def by (simp add: char_simps string_simps drop_comments_def)
  have l: "length example_entry = 105"
    unfolding example_entry_def by (simp add: lit_def)
  have "scan_loop example_entry 105 0 [] = scan_loop example_entry 105 105 [example_bibentry]"
    by (subst scan_loop.simps) (simp add: example_step)
  also have "\<dots> = Some (Inr [example_bibentry])"
    by (subst scan_loop.simps) simp
  finally show ?thesis by (simp add: parse_bibtex_def d l)
qed

lemma example_project: "entry_to_publication example_bibentry =
   [(''title'', JStr (lit ''A Study'')),
    (''authors'', JArr [JStr (lit ''A. One''), JStr (lit ''B. Two'')]),
    (''year'', JInt 2023), (''venue'', JStr (lit ''Nature'')), (''type'', JStr (lit ''article'')),
    (''links'', JObj [(''doi'', JStr (lit ''10.1/x''))])]"
proof -
  let ?f = "fields_map example_bibentry"
  have t: "title_of ?f = lit ''A Study''"
    unfolding example_bibentry_def by (simp add: char_simps strip_simps get_or_def title_of_def)
  have a: "authors_of ?f = [lit ''A. One'', lit ''B. Two'']"
    unfolding example_bibentry_def
    by (simp add: char_simps strip_simps startswith_def split_and_def get_or_def authors_of_def)
  have y: "year_of ?f = Some 2023"
    unfolding example_bibentry_def
    by (simp add: char_simps strip_simps digit_simps get_or_def year_of_def)
  have v: "venue_of ?f = lit ''Nature''"
    unfolding example_bibentry_def
    by (simp add: char_simps strip_simps get_or_def truthy_def venue_of_def)
  have l: "links_of ?f = [(''doi'', JStr (lit ''10.1/x''))]"
    unfolding example_bibentry_def
    by (simp add: char_simps strip_simps get_or_def truthy_def links_of_def)
  have ty: "entry_type example_bibentry = lit ''article''"
    unfolding example_bibentry_def by simp
  show ?thesis
    by (simp add: entry_to_publication_eq t a y v l ty lit_def)
qed

section \<open>What an appended entry is made of\<close>

lemma scan_step_Append:
  assumes "scan_step s n i = Some (Inr (Append i' e))"
  shows "\<exists>at g len comma.
           find_from AT s i = Some at \<and>
           match_entry_type (drop (at + 1) s) = Some (g, len) \<and>
           find_from COMMA s (at + 1 + len) = Some comma \<and>
           entry_depth_loop s n (comma + 1) 1 = Inr i' \<and>
           field_loop (slice s (comma + 1) (i' - 1)) 0 Map.empty = Some (Inr (fields_map e)) \<and>
           entry_type e = lower_ascii g \<and>
           citekey e = strip (slice s (at + 1 + len) comma)"
  using assms by (auto simp: scan_step_def split: option.splits sum.splits prod.splits)

lemma lower_ascii_letters:
  "list_all is_alpha g \<Longrightarrow> list_all (\<lambda>c. 0x61 \<le> c \<and> c \<le> 0x7A) (lower_ascii g)"
  by (induction g) (auto simp: lower_ascii_def lower_ascii_char_def is_alpha_def)

lemma parsed_entry_types:
  "\<exists>entries. parse_bibtex raw = Some (Inr entries) \<and>
     list_all (\<lambda>e::BibEntry. entry_type e \<noteq> [] \<and> list_all (\<lambda>c. 0x61 \<le> c \<and> c \<le> 0x7A) (entry_type e)) entries"
proof (rule parse_bibtex_invariant)
  show "list_all (\<lambda>e::BibEntry. entry_type e \<noteq> [] \<and> list_all (\<lambda>c. 0x61 \<le> c \<and> c \<le> 0x7A) (entry_type e)) []"
    by simp
next
  fix s i acc i' e
  assume acc: "list_all (\<lambda>e::BibEntry. entry_type e \<noteq> [] \<and> list_all (\<lambda>c. 0x61 \<le> c \<and> c \<le> 0x7A) (entry_type e)) acc"
    and st: "scan_step s (length s) i = Some (Inr (Append i' e))"
  from scan_step_Append [OF st] obtain at g len where
    m: "match_entry_type (drop (at + 1) s) = Some (g, len)" and t: "entry_type e = lower_ascii g"
    by blast
  from match_entry_type_Some [OF m] have "g \<noteq> []" "list_all is_alpha g" by simp_all
  with t have "entry_type e \<noteq> []" "list_all (\<lambda>c. 0x61 \<le> c \<and> c \<le> 0x7A) (entry_type e)"
    using lower_ascii_letters [of g] by (simp_all add: lower_ascii_def)
  with acc show "list_all (\<lambda>e::BibEntry. entry_type e \<noteq> [] \<and> list_all (\<lambda>c. 0x61 \<le> c \<and> c \<le> 0x7A) (entry_type e)) (acc @ [e])"
    by simp
qed

lemma type_of_publication: "map_of (entry_to_publication e) ''type'' = Some (JStr (entry_type e))"
  by (cases "year_of (fields_map e)") (simp_all add: entry_to_publication_eq)

section \<open>Further evaluations\<close>

lemmas projection_simps = get_or_def truthy_def title_of_def authors_of_def year_of_def
  venue_of_def links_of_def

lemma bare_step:
  "scan_step bare_entry 9 0 =
     Some (Inr (Append 9 \<lparr>entry_type = lit ''misc'', citekey = lit ''k'', fields_map = Map.empty\<rparr>))"
  unfolding bare_entry_def by (simp add: char_simps string_simps parser_simps)

lemma bare_parse:
  "parse_bibtex bare_entry =
     Some (Inr [\<lparr>entry_type = lit ''misc'', citekey = lit ''k'', fields_map = Map.empty\<rparr>])"
proof -
  have d: "drop_comments bare_entry = bare_entry"
    unfolding bare_entry_def by (simp add: char_simps string_simps drop_comments_def)
  have l: "length bare_entry = 9"
    unfolding bare_entry_def by (simp add: lit_def)
  have "scan_loop bare_entry 9 0 [] = scan_loop bare_entry 9 9
          [\<lparr>entry_type = lit ''misc'', citekey = lit ''k'', fields_map = Map.empty\<rparr>]"
    by (subst scan_loop.simps) (simp add: bare_step)
  also have "\<dots> = Some (Inr [\<lparr>entry_type = lit ''misc'', citekey = lit ''k'', fields_map = Map.empty\<rparr>])"
    by (subst scan_loop.simps) simp
  finally show ?thesis by (simp add: parse_bibtex_def d l)
qed

lemma bare_publications:
  "publications low bare_entry = Some (Inr [[(''title'', JStr []), (''type'', JStr (lit ''misc''))]])"
  by (simp add: publications_def bare_parse sort_pubs_def entry_to_publication_eq
      projection_simps strip_simps findall_d4.simps split_and_def)

section \<open>What the field map holds\<close>






section \<open>The sort key of a record\<close>

lemma sort_key_of_projection:
  "sort_key_pub low (entry_to_publication e) =
     ((case year_of (fields_map e) of None \<Rightarrow> 0 | Some y \<Rightarrow> - y), low (title_of (fields_map e)))"
  by (cases "year_of (fields_map e)") (simp_all add: sort_key_pub_def entry_to_publication_eq)

lemma three_records_sorted:
  "sort_pubs low [rec_2020_B, rec_2022_A, rec_absent_C] = [rec_2022_A, rec_2020_B, rec_absent_C]"
  by (simp add: sort_pubs_def sort_key_pub_def rec_2020_B_def rec_2022_A_def rec_absent_C_def)

section \<open>What the scan does with a malformed entry\<close>







section \<open>The claims\<close>

text \<open>
  C7. For every input text, that is for every sequence of code points, however malformed
  as BibTeX, \<open>parse_bibtex\<close> returns a sequence of entries: it neither raises (no index
  out of range escapes it) nor runs forever.
\<close>

theorem parse_bibtex_returns_entries: "\<exists>entries. parse_bibtex raw = Some (Inr entries)"
  using parse_bibtex_invariant [of "\<lambda>_. True" raw] by blast

text \<open>
  C4. For the single-entry input
  \<^verbatim>\<open>@article{k2023, title={A Study}, author={A. One and B. Two}, year={2023}, journal={Nature}, doi={10.1/x}}\<close>
  parsing followed by projection (and the sort of \<^verbatim>\<open>main\<close>, whatever \<^verbatim>\<open>str.lower\<close> does)
  produces exactly one record: title "A Study", authors "A. One" and "B. Two", year 2023,
  venue "Nature", type "article", links with the single key doi at "10.1/x", the keys in
  this order.
\<close>

theorem example_entry_record:
  "publications low example_entry = Some (Inr
     [[(''title'', JStr (lit ''A Study'')),
       (''authors'', JArr [JStr (lit ''A. One''), JStr (lit ''B. Two'')]),
       (''year'', JInt 2023), (''venue'', JStr (lit ''Nature'')), (''type'', JStr (lit ''article'')),
       (''links'', JObj [(''doi'', JStr (lit ''10.1/x''))])]])"
  by (simp add: publications_def example_parse example_project sort_pubs_def)

text \<open>
  C5. Every record that projection builds holds the keys \<^verbatim>\<open>title\<close> and \<^verbatim>\<open>type\<close>, whatever
  their values; each of \<^verbatim>\<open>authors\<close>, \<^verbatim>\<open>year\<close>, \<^verbatim>\<open>venue\<close> and \<^verbatim>\<open>links\<close> is present exactly when
  its value is not empty (the author list, the venue text, the links object) or not null
  (the year), and then holds that value. No key occurs twice, and no value of the record
  is null, an empty list or an empty object, nor is the venue ever the empty text.
\<close>

theorem projection_keys:
  "map_of (entry_to_publication e) ''title'' = Some (JStr (title_of (fields_map e))) \<and>
   map_of (entry_to_publication e) ''type'' = Some (JStr (entry_type e)) \<and>
   map_of (entry_to_publication e) ''authors'' =
     (if authors_of (fields_map e) = [] then None
      else Some (JArr (map JStr (authors_of (fields_map e))))) \<and>
   map_of (entry_to_publication e) ''year'' =
     (case year_of (fields_map e) of None \<Rightarrow> None | Some y \<Rightarrow> Some (JInt y)) \<and>
   map_of (entry_to_publication e) ''venue'' =
     (if venue_of (fields_map e) = [] then None else Some (JStr (venue_of (fields_map e)))) \<and>
   map_of (entry_to_publication e) ''links'' =
     (if links_of (fields_map e) = [] then None else Some (JObj (links_of (fields_map e)))) \<and>
   distinct (map fst (entry_to_publication e)) \<and>
   JNull \<notin> snd ` set (entry_to_publication e) \<and>
   JArr [] \<notin> snd ` set (entry_to_publication e) \<and>
   JObj [] \<notin> snd ` set (entry_to_publication e) \<and>
   (''venue'', JStr []) \<notin> set (entry_to_publication e)"
  by (cases "year_of (fields_map e)") (simp_all add: entry_to_publication_eq)

text \<open>
  C10. Every record the program emits has under \<^verbatim>\<open>type\<close> a text that is not empty and
  consists of the lowercase ASCII letters a to z only.
\<close>

theorem record_type_lowercase:
  assumes "publications low raw = Some (Inr pubs)" and "p \<in> set pubs"
  shows "\<exists>t. map_of p ''type'' = Some (JStr t) \<and> t \<noteq> [] \<and>
             list_all (\<lambda>c. 0x61 \<le> c \<and> c \<le> 0x7A) t"
proof -
  from parsed_entry_types [of raw] obtain entries where
    pe: "parse_bibtex raw = Some (Inr entries)"
    and ty: "list_all (\<lambda>e::BibEntry. entry_type e \<noteq> [] \<and> list_all (\<lambda>c. 0x61 \<le> c \<and> c \<le> 0x7A) (entry_type e)) entries"
    by blast
  from assms(1) pe have "pubs = sort_pubs low (map entry_to_publication entries)"
    by (simp add: publications_def)
  with assms(2) obtain e where e: "e \<in> set entries" and p: "p = entry_to_publication e"
    by (auto simp: sort_pubs_def)
  from ty e have "entry_type e \<noteq> []" "list_all (\<lambda>c. 0x61 \<le> c \<and> c \<le> 0x7A) (entry_type e)"
    by (simp_all add: list_all_iff)
  with p show ?thesis by (simp add: type_of_publication)
qed

theorem record_type_lowercase_witness:
  "publications lower_ascii bare_entry =
     Some (Inr [[(''title'', JStr []), (''type'', JStr (lit ''misc''))]]) \<and>
   (\<exists>t. map_of [(''title'', JStr []), (''type'', JStr (lit ''misc''))] ''type'' = Some (JStr t) \<and>
        t \<noteq> [] \<and> list_all (\<lambda>c. 0x61 \<le> c \<and> c \<le> 0x7A) t)"
  using record_type_lowercase [OF bare_publications [of lower_ascii],
      of "[(''title'', JStr []), (''type'', JStr (lit ''misc''))]"]
  by (simp add: bare_publications)

text \<open>
  C8. The parse function returns on every input text. The scan loop returns from every
  position, and each of its rounds that goes on leaves the cursor strictly further right:
  after a \<^verbatim>\<open>continue\<close>, after an appended entry, and in particular when the entry-type
  pattern does not match behind an \<^verbatim>\<open>@\<close>, where the round continues at the position just
  behind that \<^verbatim>\<open>@\<close>.
\<close>

theorem scan_always_advances:
  "(\<exists>r. parse_bibtex raw = Some r) \<and>
   (\<exists>r. scan_loop s (length s) i acc = Some r) \<and>
   (\<forall>i'. scan_step s (length s) i = Some (Inr (Continue i')) \<longrightarrow> i < i') \<and>
   (\<forall>i' e. scan_step s (length s) i = Some (Inr (Append i' e)) \<longrightarrow> i < i') \<and>
   (\<forall>at. find_from AT s i = Some at \<and> match_entry_type (drop (at + 1) s) = None \<longrightarrow>
      scan_step s (length s) i = Some (Inr (Continue (at + 1))) \<and> i < at + 1)"
proof -
  have a: "\<exists>r. parse_bibtex raw = Some r"
    using parse_bibtex_invariant [of "\<lambda>_. True" raw] by blast
  have b: "\<exists>r. scan_loop s (length s) i acc = Some r"
    using scan_loop_invariant [of "length s" s "\<lambda>_. True" acc i] by blast
  from scan_step_ok [of "length s" s i] obtain st where
    st: "scan_step s (length s) i = Some (Inr st)"
    and c: "\<forall>i'. st = Continue i' \<longrightarrow> i < i' \<and> i' \<le> length s"
    and d: "\<forall>i' e. st = Append i' e \<longrightarrow> i < i'"
    by blast
  have e: "\<forall>at. find_from AT s i = Some at \<and> match_entry_type (drop (at + 1) s) = None \<longrightarrow>
      scan_step s (length s) i = Some (Inr (Continue (at + 1))) \<and> i < at + 1"
  proof (intro allI impI)
    fix at assume h: "find_from AT s i = Some at \<and> match_entry_type (drop (at + 1) s) = None"
    then have "i \<le> at" using find_from_Some by blast
    with h show "scan_step s (length s) i = Some (Inr (Continue (at + 1))) \<and> i < at + 1"
      by (simp add: scan_step_def)
  qed
  from a b st c d e show ?thesis by simp
qed

theorem scan_always_advances_witness:
  "(\<exists>r. parse_bibtex stray_at = Some r) \<and>
   (\<exists>r. scan_loop stray_at (length stray_at) 0 [] = Some r) \<and>
   find_from AT stray_at 0 = Some 0 \<and> match_entry_type (drop (0 + 1) stray_at) = None \<and>
   scan_step stray_at (length stray_at) 0 = Some (Inr (Continue (0 + 1))) \<and> (0::nat) < 0 + 1 \<and>
   scan_step bare_entry (length bare_entry) 0 =
     Some (Inr (Append 9 \<lparr>entry_type = lit ''misc'', citekey = lit ''k'', fields_map = Map.empty\<rparr>)) \<and>
   (0::nat) < 9"
proof -
  have f: "find_from AT stray_at 0 = Some 0"
    unfolding stray_at_def by (simp add: lit_def find_from_def)
  have m: "match_entry_type (drop (0 + 1) stray_at) = None"
    unfolding stray_at_def by (simp add: char_simps match_entry_type_def)
  have l: "length bare_entry = 9"
    unfolding bare_entry_def by (simp add: lit_def)
  from scan_always_advances [of stray_at stray_at 0 "[]"] f m
    scan_always_advances [of stray_at bare_entry 0 "[]"] bare_step l
  show ?thesis by simp
qed

text \<open>
  C9. The script beside the JSON document is written exactly when the output path, in lower
  case, ends in \<^verbatim>\<open>.json\<close>. It is then the second and last file written, its path is the
  output path with its last five characters replaced by \<^verbatim>\<open>.js\<close>, and it holds the header
  line, the prefix \<^verbatim>\<open>window.PUBLICATIONS = \<close>, the records as JSON on one line, a semicolon
  and a newline; otherwise the JSON document is the only file written. So \<^verbatim>\<open>pubs.JSON\<close>,
  which \<^verbatim>\<open>str.lower\<close> turns into \<^verbatim>\<open>pubs.json\<close>, gets the sibling \<^verbatim>\<open>pubs.js\<close>, and
  \<^verbatim>\<open>pubs.txt\<close>, which \<^verbatim>\<open>str.lower\<close> leaves as it is, gets none.
\<close>

theorem js_sibling_iff_json_suffix:
  "(endswith (low outp) (lit ''.json'') \<longrightarrow>
      written_files low outp pubs =
        [(outp, dumps_indent 0 (JArr (map JObj pubs)) @ [LF]),
         (take (length outp - 5) outp @ lit ''.js'',
          js_header @ lit ''window.PUBLICATIONS = '' @ dumps (JArr (map JObj pubs)) @
          lit '';'' @ [LF])]) \<and>
   (\<not> endswith (low outp) (lit ''.json'') \<longrightarrow>
      written_files low outp pubs = [(outp, dumps_indent 0 (JArr (map JObj pubs)) @ [LF])]) \<and>
   (length sfx = 5 \<and> endswith (low (stem @ sfx)) (lit ''.json'') \<longrightarrow>
      map fst (written_files low (stem @ sfx) pubs) = [stem @ sfx, stem @ lit ''.js'']) \<and>
   (low json_path = lit ''pubs.json'' \<longrightarrow>
      map fst (written_files low json_path pubs) = [json_path, lit ''pubs.js'']) \<and>
   (low txt_path = txt_path \<longrightarrow> map fst (written_files low txt_path pubs) = [txt_path])"
  by (simp add: written_files_def slice_def endswith_def json_path_def txt_path_def lit_def)

theorem js_sibling_iff_json_suffix_witness:
  "endswith (lower_ascii json_path) (lit ''.json'') \<and>
   written_files lower_ascii json_path [] =
     [(json_path, lit ''[]'' @ [LF]),
      (lit ''pubs.js'',
       lit ''// Auto-generated from BibTeX. Do not edit by hand.'' @ [LF] @
       lit ''window.PUBLICATIONS = [];'' @ [LF])] \<and>
   \<not> endswith (lower_ascii txt_path) (lit ''.json'') \<and>
   written_files lower_ascii txt_path [] = [(txt_path, lit ''[]'' @ [LF])] \<and>
   length (lit ''.JSON'') = 5 \<and>
   map fst (written_files lower_ascii (lit ''pubs'' @ lit ''.JSON'') []) =
     [lit ''pubs'' @ lit ''.JSON'', lit ''pubs'' @ lit ''.js'']"
  using js_sibling_iff_json_suffix [of lower_ascii json_path "[]" "lit ''.JSON''" "lit ''pubs''"]
    js_sibling_iff_json_suffix [of lower_ascii txt_path "[]" "lit ''.JSON''" "lit ''pubs''"]
  by (simp add: json_path_def txt_path_def lit_def endswith_def lower_ascii_def
      lower_ascii_char_def js_header_def)




text \<open>
  C1, as the specification words it, says that for records with years 2020, 2022 and none
  and titles B, A and C the sorted order is the record without a year first, then 2022,
  then 2020. The sort is ascending in the key and the key of a record without a year
  starts with 0, which is greater than the negated year of the other two: the record
  without a year comes last, whatever \<^verbatim>\<open>str.lower\<close> does to the titles.
\<close>

theorem absent_year_sorts_last:
  "\<forall>low. sort_pubs low [rec_2020_B, rec_2022_A, rec_absent_C] = [rec_2022_A, rec_2020_B, rec_absent_C] \<and>
     sort_pubs low [rec_2020_B, rec_2022_A, rec_absent_C] \<noteq> [rec_absent_C, rec_2022_A, rec_2020_B]"
  by (simp add: three_records_sorted) (simp add: rec_2020_B_def rec_2022_A_def rec_absent_C_def)

text \<open>
  C1, amended. The record sequence is sorted stably and ascending by the key (minus the
  year, or 0 when the record has no year; the title in lower case): the result is sorted
  by that key, it holds the same records as many times, and records with equal keys keep
  their order. This holds for the records of every run of the pipeline. The key of a
  projected record is made of the year and title of the projection, so a record with a
  positive year has a smaller key than one without a year and comes before it: records
  without a year come last, not first. For years 2020, 2022, none and titles B, A, C the
  order is 2022 (A), 2020 (B), none (C).
\<close>

theorem sorted_by_year_descending_then_title:
  "sorted (map (sort_key_pub low) (sort_pubs low pubs)) \<and>
   mset (sort_pubs low pubs) = mset pubs \<and>
   filter (\<lambda>p. sort_key_pub low p = k) (sort_pubs low pubs) = filter (\<lambda>p. sort_key_pub low p = k) pubs \<and>
   (publications low raw = Some (Inr recs) \<longrightarrow> sorted (map (sort_key_pub low) recs)) \<and>
   sort_key_pub low (entry_to_publication e) =
     ((case year_of (fields_map e) of None \<Rightarrow> 0 | Some y \<Rightarrow> - y), low (title_of (fields_map e))) \<and>
   (year_of (fields_map e1) = Some y \<and> 0 < y \<and> year_of (fields_map e2) = None \<longrightarrow>
      sort_key_pub low (entry_to_publication e1) < sort_key_pub low (entry_to_publication e2)) \<and>
   sort_pubs low [rec_2020_B, rec_2022_A, rec_absent_C] = [rec_2022_A, rec_2020_B, rec_absent_C]"
proof -
  have a: "sorted (map (sort_key_pub low) (sort_pubs low pubs))"
    by (simp add: sort_pubs_def)
  have b: "mset (sort_pubs low pubs) = mset pubs"
    by (simp add: sort_pubs_def)
  have c: "filter (\<lambda>p. sort_key_pub low p = k) (sort_pubs low pubs) = filter (\<lambda>p. sort_key_pub low p = k) pubs"
    unfolding sort_pubs_def by (rule sort_key_stable)
  have d: "publications low raw = Some (Inr recs) \<longrightarrow> sorted (map (sort_key_pub low) recs)"
    by (auto simp: publications_def sort_pubs_def split: option.splits sum.splits)
  have e: "year_of (fields_map e1) = Some y \<and> 0 < y \<and> year_of (fields_map e2) = None \<longrightarrow>
      sort_key_pub low (entry_to_publication e1) < sort_key_pub low (entry_to_publication e2)"
    by (simp add: sort_key_of_projection)
  from a b c d e show ?thesis
    by (simp add: sort_key_of_projection three_records_sorted)
qed

theorem sorted_by_year_descending_then_title_witness:
  "publications lower_ascii bare_entry = Some (Inr [[(''title'', JStr []), (''type'', JStr (lit ''misc''))]]) \<and>
   sorted (map (sort_key_pub lower_ascii) [[(''title'', JStr []), (''type'', JStr (lit ''misc''))]]) \<and>
   year_of (fields_map entry_2020_B) = Some 2020 \<and> (0::int) < 2020 \<and>
   year_of (fields_map entry_absent_C) = None \<and>
   entry_to_publication entry_2020_B = rec_2020_B \<and>
   entry_to_publication entry_absent_C = rec_absent_C \<and>
   sort_key_pub lower_ascii rec_2020_B = (- 2020, lit ''b'') \<and>
   sort_key_pub lower_ascii rec_absent_C = (0, lit ''c'') \<and>
   sort_key_pub lower_ascii rec_2020_B < sort_key_pub lower_ascii rec_absent_C \<and>
   sorted (map (sort_key_pub lower_ascii) (sort_pubs lower_ascii [rec_2020_B, rec_2022_A, rec_absent_C]))"
proof -
  have y1: "year_of (fields_map entry_2020_B) = Some 2020"
    unfolding entry_2020_B_def by (simp add: char_simps strip_simps digit_simps get_or_def year_of_def)
  have y2: "year_of (fields_map entry_absent_C) = None"
    unfolding entry_absent_C_def by (simp add: char_simps strip_simps get_or_def year_of_def)
  have p1: "entry_to_publication entry_2020_B = rec_2020_B"
    using y1 unfolding entry_2020_B_def rec_2020_B_def
    by (simp add: entry_to_publication_eq char_simps strip_simps projection_simps split_and_def)
  have p2: "entry_to_publication entry_absent_C = rec_absent_C"
    using y2 unfolding entry_absent_C_def rec_absent_C_def
    by (simp add: entry_to_publication_eq char_simps strip_simps projection_simps split_and_def)
  have k1: "sort_key_pub lower_ascii rec_2020_B = (- 2020, lit ''b'')"
    by (simp add: sort_key_pub_def rec_2020_B_def char_simps)
  have k2: "sort_key_pub lower_ascii rec_absent_C = (0, lit ''c'')"
    by (simp add: sort_key_pub_def rec_absent_C_def char_simps)
  note T = sorted_by_year_descending_then_title
    [of lower_ascii "[rec_2020_B, rec_2022_A, rec_absent_C]" "(0, lit ''c'')" bare_entry
        "[[(''title'', JStr []), (''type'', JStr (lit ''misc''))]]" entry_2020_B entry_2020_B 2020
        entry_absent_C]
  have b: "publications lower_ascii bare_entry =
      Some (Inr [[(''title'', JStr []), (''type'', JStr (lit ''misc''))]])"
    by (rule bare_publications)
  have s1: "sorted (map (sort_key_pub lower_ascii) [[(''title'', JStr []), (''type'', JStr (lit ''misc''))]])"
    using T b by blast
  have z: "(0::int) < 2020" by simp
  have "sort_key_pub lower_ascii (entry_to_publication entry_2020_B)
      < sort_key_pub lower_ascii (entry_to_publication entry_absent_C)"
    using T y1 y2 z by blast
  then have lt: "sort_key_pub lower_ascii rec_2020_B < sort_key_pub lower_ascii rec_absent_C"
    by (simp only: p1 p2)
  have s3: "sorted (map (sort_key_pub lower_ascii)
      (sort_pubs lower_ascii [rec_2020_B, rec_2022_A, rec_absent_C]))"
    using T by blast
  show ?thesis
    by (intro conjI) (fact b s1 y1 z y2 p1 p2 k1 k2 lt s3)+
qed




end
